theory Spec2Isabelle
  imports Main "HOL-Library.Log_Nat"
begin

section \<open>Python values used by the script\<close>

text \<open>
  The script is plain Python: integers are unbounded (\<^typ>\<open>int\<close>), \<open>float\<close> is IEEE binary64,
  strings are lists of (ASCII) characters, and every exception the interpreter can raise in
  the modelled code is a value of \<open>error\<close>: a \<open>ZeroDivisionError\<close> or \<open>ValueError\<close> carries
  its message, a \<open>KeyError\<close> the missing key, an \<open>UnboundLocalError\<close> the name of the variable.
\<close>

datatype error =
    ZeroDivisionError string
  | ValueError string
  | KeyError string
  | OverflowError
  | UnboundLocalError string
  | EOFError

subsection \<open>binary64 floats\<close>

text \<open>
  A finite float \<open>Fin s m e\<close> is the sign bit \<open>s\<close>, the significand \<open>m \<ge> 0\<close> and the
  exponent \<open>e\<close> of the unit in the last place: its value is \<open>\<plusminus> m * 2 ^ e\<close>. The results
  of the operations below are in the IEEE form: \<open>2 ^ 52 \<le> m < 2 ^ 53\<close> and
  \<open>- 1074 \<le> e \<le> 971\<close> for a normal number, \<open>m < 2 ^ 52\<close> and \<open>e = - 1074\<close> for a subnormal
  number or a zero. \<open>Infty s\<close> is the infinity of sign \<open>s\<close>.
\<close>

datatype pyfloat = Fin bool int int | Infty bool | NaN

definition pw :: "int \<Rightarrow> int" where
  "pw k = 2 ^ nat k"

definition pow2 :: "int \<Rightarrow> rat" where
  "pow2 k = (if 0 \<le> k then 2 ^ nat k else 1 / 2 ^ nat (- k))"

definition smant :: "bool \<Rightarrow> int \<Rightarrow> int" where
  "smant s m = (if s then - m else m)"

fun valof :: "pyfloat \<Rightarrow> rat" where
  "valof (Fin s m e) = of_int (smant s m) * pow2 e"
| "valof (Infty s) = 0"
| "valof NaN = 0"

text \<open>\<open>ilog2 p q\<close> is \<open>\<lfloor>log\<^sub>2 (p / q)\<rfloor>\<close> for positive \<open>p\<close> and \<open>q\<close>.\<close>

definition ilog2_adj :: "int \<Rightarrow> int \<Rightarrow> int \<Rightarrow> int" where
  "ilog2_adj p q k = (if q * pw k \<le> p * pw (- k) then k else k - 1)"

definition ilog2 :: "int \<Rightarrow> int \<Rightarrow> int" where
  "ilog2 p q = ilog2_adj p q (bitlen p - bitlen q)"

text \<open>\<open>rhe_div n d\<close> is \<open>n / d\<close> (\<open>d > 0\<close>) rounded to the nearest integer, a tie to the even one.\<close>

definition rhe_rem :: "int \<Rightarrow> int \<Rightarrow> int \<Rightarrow> int" where
  "rhe_rem f r2 d = (if r2 < d then f else if d < r2 then f + 1 else if even f then f else f + 1)"

definition rhe_div :: "int \<Rightarrow> int \<Rightarrow> int" where
  "rhe_div n d = rhe_rem (n div d) (2 * (n mod d)) d"

text \<open>
  Rounding the exact value \<open>p / q > 0\<close> to binary64, round-to-nearest, ties-to-even: the
  exponent keeps 53 significant bits (fewer below \<open>2 ^ - 1022\<close>), a significand rounded up
  to \<open>2 ^ 53\<close> moves to the next binade, and a result beyond the largest float is an infinity.
\<close>

definition b64_exp :: "int \<Rightarrow> int \<Rightarrow> int" where
  "b64_exp p q = max (ilog2 p q - 52) (- 1074)"

definition b64_mant :: "int \<Rightarrow> int \<Rightarrow> int \<Rightarrow> int" where
  "b64_mant p q e = rhe_div (p * pw (- e)) (q * pw e)"

definition b64_range :: "bool \<Rightarrow> int \<Rightarrow> int \<Rightarrow> pyfloat" where
  "b64_range s m e = (if 971 < e then Infty s else Fin s m e)"

definition b64_pack :: "bool \<Rightarrow> int \<Rightarrow> int \<Rightarrow> pyfloat" where
  "b64_pack s m e = (if m = pw 53 then b64_range s (pw 52) (e + 1) else b64_range s m e)"

definition b64_norm :: "bool \<Rightarrow> int \<Rightarrow> int \<Rightarrow> int \<Rightarrow> pyfloat" where
  "b64_norm s p q e = b64_pack s (b64_mant p q e) e"

definition b64_of_frac :: "bool \<Rightarrow> int \<Rightarrow> int \<Rightarrow> pyfloat" where
  "b64_of_frac s p q = (if p = 0 then Fin s 0 (- 1074) else b64_norm s p q (b64_exp p q))"

text \<open>
  \<open>b64_round zneg n d\<close> rounds the signed value \<open>n / d\<close> (\<open>d > 0\<close>); \<open>zneg\<close> is the sign an
  exact zero takes, which depends on the operation.
\<close>

definition b64_round :: "bool \<Rightarrow> int \<Rightarrow> int \<Rightarrow> pyfloat" where
  "b64_round zneg n d = b64_of_frac (n < 0 \<or> (n = 0 \<and> zneg)) \<bar>n\<bar> d"

text \<open>A decimal literal of the source, such as \<open>0.09\<close>, is the float nearest to it.\<close>

definition float_lit :: "int \<Rightarrow> int \<Rightarrow> pyfloat" where
  "float_lit n d = b64_round False n d"

fun fneg :: "pyfloat \<Rightarrow> pyfloat" where
  "fneg (Fin s m e) = Fin (\<not> s) m e"
| "fneg (Infty s) = Infty (\<not> s)"
| "fneg NaN = NaN"

definition fadd_fin :: "bool \<Rightarrow> int \<Rightarrow> int \<Rightarrow> int \<Rightarrow> int \<Rightarrow> pyfloat" where
  "fadd_fin zneg n1 e1 n2 e2 =
     b64_round zneg ((n1 * pw (e1 - e2) + n2 * pw (e2 - e1)) * pw (min e1 e2)) (pw (- min e1 e2))"

fun fadd :: "pyfloat \<Rightarrow> pyfloat \<Rightarrow> pyfloat" where
  "fadd NaN y = NaN"
| "fadd x NaN = NaN"
| "fadd (Infty s) (Infty t) = (if s = t then Infty s else NaN)"
| "fadd (Infty s) (Fin t m e) = Infty s"
| "fadd (Fin s m e) (Infty t) = Infty t"
| "fadd (Fin s1 m1 e1) (Fin s2 m2 e2) = fadd_fin (s1 \<and> s2) (smant s1 m1) e1 (smant s2 m2) e2"

definition fsub :: "pyfloat \<Rightarrow> pyfloat \<Rightarrow> pyfloat" where
  "fsub x y = fadd x (fneg y)"

definition fmul_fin :: "bool \<Rightarrow> int \<Rightarrow> int \<Rightarrow> pyfloat" where
  "fmul_fin zneg n e = b64_round zneg (n * pw e) (pw (- e))"

fun fmul :: "pyfloat \<Rightarrow> pyfloat \<Rightarrow> pyfloat" where
  "fmul NaN y = NaN"
| "fmul x NaN = NaN"
| "fmul (Infty s) (Infty t) = Infty (s \<noteq> t)"
| "fmul (Infty s) (Fin t m e) = (if m = 0 then NaN else Infty (s \<noteq> t))"
| "fmul (Fin s m e) (Infty t) = (if m = 0 then NaN else Infty (s \<noteq> t))"
| "fmul (Fin s1 m1 e1) (Fin s2 m2 e2) =
     fmul_fin (s1 \<noteq> s2) (smant s1 m1 * smant s2 m2) (e1 + e2)"

text \<open>
  Where Python converts an integer result to a float (\<open>int / int\<close>, \<open>float(int)\<close>, \<open>round\<close>),
  a value beyond the float range raises \<open>OverflowError\<close> instead of giving an infinity.
\<close>

definition finite_or_overflow :: "pyfloat \<Rightarrow> error + pyfloat" where
  "finite_or_overflow x = (case x of Infty s \<Rightarrow> Inl OverflowError | _ \<Rightarrow> Inr x)"

text \<open>\<open>a / b\<close> on two integers: true division, correctly rounded.\<close>

definition int_truediv :: "int \<Rightarrow> int \<Rightarrow> error + pyfloat" where
  "int_truediv a b =
     (if b = 0 then Inl (ZeroDivisionError ''division by zero'')
      else finite_or_overflow (b64_round (b < 0) (a * sgn b) \<bar>b\<bar>))"

text \<open>
  \<open>round(x, 2)\<close> on a float: the exact value of \<open>x\<close> is rounded to two decimals, a tie to
  the even digit, and the decimal result is converted back to the nearest float.
\<close>

definition round_ndigits_fin :: "bool \<Rightarrow> int \<Rightarrow> int \<Rightarrow> int \<Rightarrow> error + pyfloat" where
  "round_ndigits_fin s n e t =
     finite_or_overflow (b64_round s (rhe_div (n * t * pw e) (pw (- e))) t)"

fun py_round2 :: "pyfloat \<Rightarrow> error + pyfloat" where
  "py_round2 (Fin s m e) = round_ndigits_fin s (smant s m) e 100"
| "py_round2 x = Inr x"

text \<open>The IEEE form of a significand and its exponent.\<close>

definition valid_mant :: "int \<Rightarrow> int \<Rightarrow> bool" where
  "valid_mant m e \<longleftrightarrow>
     (e = - 1074 \<and> 0 \<le> m \<and> m < pw 52) \<or> (- 1074 \<le> e \<and> e \<le> 971 \<and> pw 52 \<le> m \<and> m < pw 53)"

section \<open>Section 3: stepping through \<open>calculate_total\<close>\<close>

text \<open>
  The script calls \<open>calculate_total(250.00, discount_pct=15, tax_rate=0.09)\<close>: the price and
  the tax rate are floats, the discount percentage is an integer, so \<open>discount_pct / 100\<close>
  is an integer true division.
\<close>

definition apply_discount :: "pyfloat \<Rightarrow> int \<Rightarrow> error + pyfloat" where
  "apply_discount price discount_pct =
     (case int_truediv discount_pct 100 of
        Inl err \<Rightarrow> Inl err
      | Inr r \<Rightarrow> Inr (fsub price (fmul price r)))"

definition apply_tax :: "pyfloat \<Rightarrow> pyfloat \<Rightarrow> pyfloat" where
  "apply_tax price tax_rate = fadd price (fmul price tax_rate)"

definition calculate_total :: "pyfloat \<Rightarrow> int \<Rightarrow> pyfloat \<Rightarrow> error + pyfloat" where
  "calculate_total base_price discount_pct tax_rate =
     (case apply_discount base_price discount_pct of
        Inl err \<Rightarrow> Inl err
      | Inr discounted \<Rightarrow> py_round2 (apply_tax discounted tax_rate))"

section \<open>Text written by \<open>print\<close>\<close>

text \<open>\<open>str(n)\<close> on an integer, as an f-string field \<open>{n}\<close> formats it.\<close>

definition digit_char :: "int \<Rightarrow> char" where
  "digit_char d = ''0123456789'' ! nat d"

function str_digits :: "int \<Rightarrow> string" where
  "str_digits n =
     (if n < 10 then [digit_char n] else str_digits (n div 10) @ [digit_char (n mod 10)])"
  by pat_completeness auto
termination
  by (relation "measure nat") auto

declare str_digits.simps [simp del]

definition str_int :: "int \<Rightarrow> string" where
  "str_int i = (if i < 0 then CHR ''-'' # str_digits (- i) else str_digits i)"

section \<open>Built-ins on integers and lists\<close>

text \<open>\<open>range(start, stop, step)\<close>, as the list of the values a \<open>for\<close> loop takes from it.\<close>

function range_up :: "int \<Rightarrow> int \<Rightarrow> int \<Rightarrow> int list" where
  "range_up i stop step = (if 0 < step \<and> i < stop then i # range_up (i + step) stop step else [])"
  by pat_completeness auto
termination
  by (relation "measure (\<lambda>(i, stop, step). nat (stop - i))") auto

declare range_up.simps [simp del]

function range_down :: "int \<Rightarrow> int \<Rightarrow> int \<Rightarrow> int list" where
  "range_down i stop step =
     (if step < 0 \<and> stop < i then i # range_down (i + step) stop step else [])"
  by pat_completeness auto
termination
  by (relation "measure (\<lambda>(i, stop, step). nat (i - stop))") auto

declare range_down.simps [simp del]

definition py_range :: "int \<Rightarrow> int \<Rightarrow> int \<Rightarrow> error + int list" where
  "py_range start stop step =
     (if step = 0 then Inl (ValueError ''range() arg 3 must not be zero'')
      else if 0 < step then Inr (range_up start stop step)
      else Inr (range_down start stop step))"

text \<open>\<open>a // b\<close> on integers is floor division, as \<open>div\<close> on \<^typ>\<open>int\<close> is.\<close>

definition py_floordiv :: "int \<Rightarrow> int \<Rightarrow> error + int" where
  "py_floordiv a b =
     (if b = 0 then Inl (ZeroDivisionError ''integer division or modulo by zero'')
      else Inr (a div b))"

text \<open>\<open>xs[lo:hi]\<close>: a negative bound counts from the end, and both are clipped to the list.\<close>

definition slice_bound :: "int \<Rightarrow> int \<Rightarrow> int" where
  "slice_bound n k = (if k < 0 then max (k + n) 0 else min k n)"

definition py_slice :: "'a list \<Rightarrow> int \<Rightarrow> int \<Rightarrow> 'a list" where
  "py_slice xs lo hi =
     take (nat (slice_bound (int (length xs)) hi - slice_bound (int (length xs)) lo))
       (drop (nat (slice_bound (int (length xs)) lo)) xs)"

text \<open>Comparison of floats; every comparison with a NaN is false.\<close>

fun flt :: "pyfloat \<Rightarrow> pyfloat \<Rightarrow> bool" where
  "flt NaN y = False"
| "flt x NaN = False"
| "flt (Infty s) (Infty t) = (s \<and> \<not> t)"
| "flt (Infty s) (Fin t m e) = s"
| "flt (Fin s m e) (Infty t) = (\<not> t)"
| "flt (Fin s1 m1 e1) (Fin s2 m2 e2) =
     (smant s1 m1 * pw (e1 - e2) < smant s2 m2 * pw (e2 - e1))"

text \<open>\<open>min(x, y)\<close> keeps its first argument unless the second is smaller.\<close>

definition py_min :: "pyfloat \<Rightarrow> pyfloat \<Rightarrow> pyfloat" where
  "py_min x y = (if flt y x then y else x)"

section \<open>Section 7: \<open>process_batches\<close>\<close>

text \<open>
  The locals one iteration of the loop assigns: what a logpoint on the \<open>processed\<close> line
  shows. \<open>time.sleep\<close> has no effect on them.
\<close>

record batch_locals =
  batch_id :: int
  batch :: "int list"
  pct :: pyfloat
  processed :: "int list"

definition batch_body :: "int list \<Rightarrow> int \<Rightarrow> int \<Rightarrow> error + batch_locals" where
  "batch_body data batch_size i =
     (case py_floordiv i batch_size of
        Inl err \<Rightarrow> Inl err
      | Inr q \<Rightarrow>
          (case int_truediv (i + batch_size) (int (length data)) of
             Inl err \<Rightarrow> Inl err
           | Inr r \<Rightarrow>
               Inr \<lparr>batch_id = q + 1,
                    batch = py_slice data i (i + batch_size),
                    pct = py_min r (float_lit 1 1),
                    processed = map (\<lambda>x. x ^ 2) (py_slice data i (i + batch_size))\<rparr>))"

text \<open>The loop over the values of the range; the result lists the iterations in order.\<close>

fun batch_loop :: "int list \<Rightarrow> int \<Rightarrow> int list \<Rightarrow> error + batch_locals list" where
  "batch_loop data batch_size [] = Inr []"
| "batch_loop data batch_size (i # rest) =
     (case batch_body data batch_size i of
        Inl err \<Rightarrow> Inl err
      | Inr l \<Rightarrow>
          (case batch_loop data batch_size rest of
             Inl err \<Rightarrow> Inl err
           | Inr ls \<Rightarrow> Inr (l # ls)))"

text \<open>
  After the loop the summary reads \<open>batch_id\<close>, which is bound only if the body ran: with no
  iteration the read raises \<open>UnboundLocalError\<close>. The result is the iterations and the
  printed line.
\<close>

definition summary_line :: "int \<Rightarrow> int \<Rightarrow> string" where
  "summary_line n bid =
     ''  Processed '' @ str_int n @ '' items in '' @ str_int bid @ '' batches.''"

definition process_batches :: "int list \<Rightarrow> int \<Rightarrow> error + batch_locals list \<times> string list" where
  "process_batches data batch_size =
     (case py_range 0 (int (length data)) batch_size of
        Inl err \<Rightarrow> Inl err
      | Inr idx \<Rightarrow>
          (case batch_loop data batch_size idx of
             Inl err \<Rightarrow> Inl err
           | Inr ls \<Rightarrow>
               (if ls = [] then Inl (UnboundLocalError ''batch_id'')
                else Inr (ls, [summary_line (int (length data)) (batch_id (last ls))]))))"

text \<open>The default \<open>batch_size=3\<close>, and the script's call on \<open>list(range(1, 16))\<close>.\<close>

definition process_batches_default :: "int list \<Rightarrow> error + batch_locals list \<times> string list" where
  "process_batches_default data = process_batches data 3"

definition sample_data :: "int list" where
  "sample_data = range_up 1 16 1"

section \<open>More operations on floats\<close>

text \<open>\<open>x <= y\<close> on floats.\<close>

fun fle :: "pyfloat \<Rightarrow> pyfloat \<Rightarrow> bool" where
  "fle NaN y = False"
| "fle x NaN = False"
| "fle (Infty s) (Infty t) = (s \<or> \<not> t)"
| "fle (Infty s) (Fin t m e) = s"
| "fle (Fin s m e) (Infty t) = (\<not> t)"
| "fle (Fin s1 m1 e1) (Fin s2 m2 e2) =
     (smant s1 m1 * pw (e1 - e2) \<le> smant s2 m2 * pw (e2 - e1))"

text \<open>A float compared with an integer: Python compares the exact values.\<close>

fun float_gt_int :: "pyfloat \<Rightarrow> int \<Rightarrow> bool" where
  "float_gt_int (Fin s m e) n = (n * pw (- e) < smant s m * pw e)"
| "float_gt_int (Infty s) n = (\<not> s)"
| "float_gt_int NaN n = False"

fun float_ge_int :: "pyfloat \<Rightarrow> int \<Rightarrow> bool" where
  "float_ge_int (Fin s m e) n = (n * pw (- e) \<le> smant s m * pw e)"
| "float_ge_int (Infty s) n = (\<not> s)"
| "float_ge_int NaN n = False"

text \<open>
  An integer operand of a float operation is converted first; an integer beyond the float
  range raises \<open>OverflowError\<close>.
\<close>

definition float_of_int :: "int \<Rightarrow> error + pyfloat" where
  "float_of_int n = finite_or_overflow (b64_round False n 1)"


text \<open>\<open>x / y\<close> on floats raises \<open>ZeroDivisionError\<close> on a zero divisor, whatever \<open>x\<close> is.\<close>

definition fdiv_fin :: "bool \<Rightarrow> int \<Rightarrow> int \<Rightarrow> int \<Rightarrow> int \<Rightarrow> pyfloat" where
  "fdiv_fin zneg n1 e1 n2 e2 =
     b64_round zneg (n1 * sgn n2 * pw (e1 - e2)) (\<bar>n2\<bar> * pw (e2 - e1))"

fun fdiv :: "pyfloat \<Rightarrow> pyfloat \<Rightarrow> error + pyfloat" where
  "fdiv x (Fin t m e) =
     (if m = 0 then Inl (ZeroDivisionError ''float division by zero'')
      else (case x of
              Fin s m1 e1 \<Rightarrow> Inr (fdiv_fin (s \<noteq> t) (smant s m1) e1 (smant t m) e)
            | Infty s \<Rightarrow> Inr (Infty (s \<noteq> t))
            | NaN \<Rightarrow> Inr NaN))"
| "fdiv (Fin s m e) (Infty t) = Inr (Fin (s \<noteq> t) 0 (- 1074))"
| "fdiv (Infty s) (Infty t) = Inr NaN"
| "fdiv NaN (Infty t) = Inr NaN"
| "fdiv x NaN = Inr NaN"

definition fdiv_int :: "pyfloat \<Rightarrow> int \<Rightarrow> error + pyfloat" where
  "fdiv_int x n = (case float_of_int n of Inl err \<Rightarrow> Inl err | Inr y \<Rightarrow> fdiv x y)"

text \<open>
  The sum of floats taken from left to right, starting from 0, each addition rounded: what a
  loop of \<open>total += x\<close> computes.
\<close>

definition float_zero :: pyfloat where
  "float_zero = Fin False 0 (- 1074)"

definition left_sum :: "pyfloat list \<Rightarrow> pyfloat" where
  "left_sum xs = foldl fadd float_zero xs"

text \<open>
  The built-in \<open>sum\<close> over floats, from its integer start value 0. The first float is added
  to that 0; the other additions depend on the interpreter: up to CPython 3.11 they are plain
  float additions from left to right, from CPython 3.12 on the rounding errors are collected
  in a compensation term (Neumaier's algorithm) that is added at the end when it is finite
  and not zero. \<open>compensated\<close> tells which of the two the interpreter does.
\<close>

fun fabs :: "pyfloat \<Rightarrow> pyfloat" where
  "fabs (Fin s m e) = Fin False m e"
| "fabs (Infty s) = Infty False"
| "fabs NaN = NaN"

fun finite_nonzero :: "pyfloat \<Rightarrow> bool" where
  "finite_nonzero (Fin s m e) = (m \<noteq> 0)"
| "finite_nonzero (Infty s) = False"
| "finite_nonzero NaN = False"

definition neumaier_error :: "pyfloat \<Rightarrow> pyfloat \<Rightarrow> pyfloat \<Rightarrow> pyfloat" where
  "neumaier_error f x t =
     (if fle (fabs x) (fabs f) then fadd (fsub f t) x else fadd (fsub x t) f)"

definition neumaier_update :: "pyfloat \<Rightarrow> pyfloat \<Rightarrow> pyfloat \<Rightarrow> pyfloat \<Rightarrow> pyfloat \<times> pyfloat" where
  "neumaier_update f c x t = (t, fadd c (neumaier_error f x t))"

definition neumaier_step :: "pyfloat \<times> pyfloat \<Rightarrow> pyfloat \<Rightarrow> pyfloat \<times> pyfloat" where
  "neumaier_step fc x = neumaier_update (fst fc) (snd fc) x (fadd (fst fc) x)"

definition neumaier_result :: "pyfloat \<times> pyfloat \<Rightarrow> pyfloat" where
  "neumaier_result fc = (if finite_nonzero (snd fc) then fadd (fst fc) (snd fc) else fst fc)"

fun py_sum :: "bool \<Rightarrow> pyfloat list \<Rightarrow> pyfloat" where
  "py_sum compensated [] = float_zero"
| "py_sum compensated (x # xs) =
     (if compensated
      then neumaier_result (foldl neumaier_step (fadd float_zero x, float_zero) xs)
      else foldl fadd (fadd float_zero x) xs)"

section \<open>Format specifications of the f-strings\<close>

definition rjust :: "nat \<Rightarrow> string \<Rightarrow> string" where
  "rjust w s = replicate (w - length s) CHR '' '' @ s"

definition ljust :: "nat \<Rightarrow> string \<Rightarrow> string" where
  "ljust w s = s @ replicate (w - length s) CHR '' ''"

text \<open>
  \<open>{x:.2f}\<close>: the exact value of the float rounded to two decimals, a tie to the even
  digit; the sign of a negative zero is kept. \<open>{x:,.2f}\<close> groups the integer digits by three.
\<close>

definition two_digits :: "int \<Rightarrow> string" where
  "two_digits n = [digit_char (n div 10), digit_char (n mod 10)]"

fun group3 :: "string \<Rightarrow> string" where
  "group3 (a # b # c # d # rest) = a # b # c # CHR '','' # group3 (d # rest)"
| "group3 s = s"

definition commas :: "string \<Rightarrow> string" where
  "commas s = rev (group3 (rev s))"

definition cents_str :: "bool \<Rightarrow> bool \<Rightarrow> int \<Rightarrow> string" where
  "cents_str grouped s c =
     (if s then ''-'' else '''') @
     (if grouped then commas (str_digits (c div 100)) else str_digits (c div 100)) @
     ''.'' @ two_digits (c mod 100)"

fun format_f2 :: "bool \<Rightarrow> pyfloat \<Rightarrow> string" where
  "format_f2 grouped (Fin s m e) = cents_str grouped s (rhe_div (m * 100 * pw e) (pw (- e)))"
| "format_f2 grouped (Infty s) = (if s then ''-inf'' else ''inf'')"
| "format_f2 grouped NaN = ''nan''"





section \<open>Section 4: the loop over the catalog\<close>

text \<open>
  An entry of the catalog is a dictionary with the keys \<open>id\<close>, \<open>name\<close> and \<open>price\<close>. The loop
  runs at module level, so \<open>catalog\<close>, \<open>item\<close> and \<open>label\<close> are global variables; \<open>out4\<close> is what
  has been printed.
\<close>

record catalog_item =
  item_id :: int
  item_name :: string
  item_price :: pyfloat

record sec4_globals =
  catalog :: "catalog_item list"
  item :: "catalog_item option"
  label :: "string option"
  out4 :: "string list"

definition format_label :: "catalog_item \<Rightarrow> string" where
  "format_label it =
     ''  ['' @ str_int (item_id it) @ ''] '' @ ljust 20 (item_name it) @
     '' $'' @ rjust 8 (format_f2 False (item_price it))"

definition catalog_body :: "catalog_item \<Rightarrow> sec4_globals \<Rightarrow> sec4_globals" where
  "catalog_body it g =
     g\<lparr>item := Some it, label := Some (format_label it), out4 := out4 g @ [format_label it]\<rparr>"

text \<open>
  \<open>for item in catalog\<close>: the list iterator keeps an index and reads the list as it is when
  each iteration starts.
\<close>

function catalog_loop :: "nat \<Rightarrow> sec4_globals \<Rightarrow> sec4_globals" where
  "catalog_loop i g =
     (if i < length (catalog g) then catalog_loop (Suc i) (catalog_body (catalog g ! i) g)
      else g)"
  by pat_completeness auto
termination
  by (relation "measure (\<lambda>(i, g). length (catalog g) - i)") (auto simp: catalog_body_def)

declare catalog_loop.simps [simp del]

definition catalog_literal :: "catalog_item list" where
  "catalog_literal =
     [\<lparr>item_id = 1, item_name = ''Widget Basic'', item_price = float_lit 2500 100\<rparr>,
      \<lparr>item_id = 2, item_name = ''Widget Plus'', item_price = float_lit 4999 100\<rparr>,
      \<lparr>item_id = 3, item_name = ''Widget Pro'', item_price = float_lit 14999 100\<rparr>,
      \<lparr>item_id = 4, item_name = ''Gadget Lite'', item_price = float_lit 1999 100\<rparr>,
      \<lparr>item_id = 5, item_name = ''Gadget Pro'', item_price = float_lit 19999 100\<rparr>,
      \<lparr>item_id = 6, item_name = ''Gadget Ultra'', item_price = float_lit 34999 100\<rparr>,
      \<lparr>item_id = 7, item_name = ''Accessory Pack'', item_price = float_lit 999 100\<rparr>,
      \<lparr>item_id = 8, item_name = ''Premium Bundle'', item_price = float_lit 49999 100\<rparr>]"

definition section4_start :: "string list \<Rightarrow> sec4_globals" where
  "section4_start out = \<lparr>catalog = catalog_literal, item = None, label = None, out4 = out\<rparr>"

definition section4_loop :: "string list \<Rightarrow> sec4_globals" where
  "section4_loop out = catalog_loop 0 (section4_start out)"

section \<open>Section 5: the three caught exceptions\<close>
















section \<open>Section 6: \<open>process_order\<close>\<close>

text \<open>
  An item of an order is a dictionary with the keys \<open>name\<close>, \<open>price\<close> (a float) and \<open>qty\<close>
  (an integer). \<open>debugpy.breakpoint()\<close> pauses under the debugger and changes nothing:
  \<open>breakpoint_hit\<close> records that the branch was taken. The first argument of
  \<open>order_subtotal\<close> and \<open>process_order\<close> is not one of the source: it tells which summation the
  interpreter's \<open>sum\<close> performs.
\<close>

record order_item =
  name :: string
  price :: pyfloat
  qty :: int












section \<open>Section 9: \<open>analyze_transactions\<close>\<close>

text \<open>
  A transaction is a dictionary with the keys \<open>id\<close>, \<open>amount\<close> (a float) and \<open>desc\<close>. The
  locals of the loop are \<open>running_total\<close>, \<open>history\<close> and \<open>high_value_count\<close>; \<open>out9\<close> is what has
  been printed. \<open>running_total\<close> starts as the integer 0, which the first addition converts to
  the float of the same value.
\<close>

record txn =
  txn_id :: int
  amount :: pyfloat
  desc :: string

record txn_locals =
  running_total :: pyfloat
  history :: "pyfloat list"
  high_value_count :: int
  out9 :: "string list"

definition txn_status :: "int \<Rightarrow> pyfloat \<Rightarrow> pyfloat \<Rightarrow> pyfloat \<Rightarrow> string" where
  "txn_status i amt rt avg =
     ''  Txn '' @ rjust 2 (str_int (i + 1)) @ '': $'' @ rjust 8 (format_f2 False amt) @
     '' | Running total: $'' @ rjust 10 (format_f2 False rt) @
     '' | Avg: $'' @ rjust 8 (format_f2 False avg)"

definition txn_finish :: "int \<Rightarrow> txn \<Rightarrow> txn_locals \<Rightarrow> pyfloat \<Rightarrow> error + txn_locals" where
  "txn_finish i t st rt =
     (case fdiv_int rt (i + 1) of
        Inl err \<Rightarrow> Inl err
      | Inr avg \<Rightarrow>
          Inr \<lparr>running_total = rt,
               history = history st @ [rt],
               high_value_count =
                 (if float_gt_int (amount t) 100 then high_value_count st + 1
                  else high_value_count st),
               out9 = out9 st @ [txn_status i (amount t) rt avg]\<rparr>)"

definition txn_body :: "int \<Rightarrow> txn \<Rightarrow> txn_locals \<Rightarrow> error + txn_locals" where
  "txn_body i t st = txn_finish i t st (fadd (running_total st) (amount t))"

fun txn_loop :: "int \<Rightarrow> txn list \<Rightarrow> txn_locals \<Rightarrow> error + txn_locals" where
  "txn_loop i [] st = Inr st"
| "txn_loop i (t # ts) st =
     (case txn_body i t st of Inl err \<Rightarrow> Inl err | Inr st' \<Rightarrow> txn_loop (i + 1) ts st')"

definition txn_start :: txn_locals where
  "txn_start = \<lparr>running_total = float_zero, history = [], high_value_count = 0, out9 = []\<rparr>"

definition txn_summary :: "int \<Rightarrow> txn_locals \<Rightarrow> txn_locals" where
  "txn_summary n st =
     st\<lparr>out9 := out9 st @
        [CHR 0x0A # ''  Summary: '' @ str_int n @ '' transactions, '' @
           str_int (high_value_count st) @ '' high-value'',
         ''  Final total: $'' @ format_f2 True (running_total st)]\<rparr>"

definition analyze_transactions :: "txn list \<Rightarrow> error + txn_locals" where
  "analyze_transactions transactions =
     (case txn_loop 0 transactions txn_start of
        Inl err \<Rightarrow> Inl err
      | Inr st \<Rightarrow> Inr (txn_summary (int (length transactions)) st))"

definition transactions_literal :: "txn list" where
  "transactions_literal =
     [\<lparr>txn_id = 1, amount = float_lit 4500 100, desc = ''Office supplies''\<rparr>,
      \<lparr>txn_id = 2, amount = float_lit 25000 100, desc = ''Software license''\<rparr>,
      \<lparr>txn_id = 3, amount = float_lit 1250 100, desc = ''Coffee''\<rparr>,
      \<lparr>txn_id = 4, amount = float_lit 89999 100, desc = ''New monitor''\<rparr>,
      \<lparr>txn_id = 5, amount = float_lit 3499 100, desc = ''Books''\<rparr>,
      \<lparr>txn_id = 6, amount = float_lit 15000 100, desc = ''Training course''\<rparr>,
      \<lparr>txn_id = 7, amount = float_lit 6750 100, desc = ''Team lunch''\<rparr>,
      \<lparr>txn_id = 8, amount = float_lit 240000 100, desc = ''Server rental''\<rparr>,
      \<lparr>txn_id = 9, amount = float_lit 599 100, desc = ''Domain renewal''\<rparr>,
      \<lparr>txn_id = 10, amount = float_lit 17500 100, desc = ''Conference ticket''\<rparr>]"

section \<open>Facts about the binary64 rounding\<close>

lemma pw_pos: "0 < pw k"
  by (simp add: pw_def)

lemma pw_nonpos: "k \<le> 0 \<Longrightarrow> pw k = 1"
  by (simp add: pw_def)

lemma pow2_powi: "pow2 k = 2 powi k"
  by (simp add: pow2_def power_int_def inverse_eq_divide power_one_over)

lemma pow2_pos: "0 < pow2 k"
  by (simp add: pow2_powi)

lemma pow2_add: "pow2 (a + b) = pow2 a * pow2 b"
  by (simp add: pow2_powi power_int_add)

lemma pow2_mono: "a \<le> b \<Longrightarrow> pow2 a \<le> pow2 b"
  by (simp add: pow2_powi power_int_increasing)

lemma pow2_less: "a < b \<Longrightarrow> pow2 a < pow2 b"
  by (simp add: pow2_powi power_int_strict_increasing)

lemma pow2_of_pw: "0 \<le> k \<Longrightarrow> of_int (pw k) = pow2 k"
  by (simp add: pw_def pow2_def)

lemma pow2_0: "pow2 0 = 1"
  by (simp add: pow2_def)

text \<open>The scaled fraction used by the rounding, as a rational.\<close>

lemma scaled_frac:
  assumes "0 < q"
  shows "of_int (p * pw (- e)) / (of_int (q * pw e) :: rat) = of_int p / of_int q / pow2 e"
proof (cases "0 \<le> e")
  case True
  then show ?thesis by (simp add: pw_nonpos pow2_of_pw [symmetric])
next
  case False
  then have npw: "pw e = 1" by (simp add: pw_nonpos)
  have "pow2 (- e) = 1 / pow2 e"
    by (simp add: pow2_powi power_int_minus inverse_eq_divide)
  with False have ppw: "(of_int (pw (- e)) :: rat) = 1 / pow2 e"
    by (simp add: pow2_of_pw)
  show ?thesis
    by (simp add: npw ppw)
qed

lemma le_frac_iff:
  assumes "0 < q"
  shows "q * pw k \<le> p * pw (- k) \<longleftrightarrow> pow2 k \<le> of_int p / (of_int q :: rat)"
proof -
  have qk: "0 < q * pw k" using assms pw_pos by simp
  have "q * pw k \<le> p * pw (- k) \<longleftrightarrow> (1 :: rat) \<le> of_int (p * pw (- k)) / of_int (q * pw k)"
    using qk by (simp add: pos_le_divide_eq del: of_int_mult)
  also have "\<dots> \<longleftrightarrow> 1 \<le> of_int p / of_int q / pow2 k"
    by (simp only: scaled_frac [OF assms])
  also have "\<dots> \<longleftrightarrow> pow2 k \<le> of_int p / of_int q"
    using pow2_pos [of k] assms by (simp add: field_simps)
  finally show ?thesis .
qed

lemma ilog2_bounds:
  assumes "0 < p" "0 < q"
  shows "pow2 (ilog2 p q) \<le> of_int p / (of_int q :: rat)"
    and "of_int p / (of_int q :: rat) < pow2 (ilog2 p q + 1)"
proof -
  let ?x = "of_int p / (of_int q :: rat)"
  let ?k = "bitlen p - bitlen q"
  have bp: "1 \<le> bitlen p" and bq: "1 \<le> bitlen q"
    using assms bitlen_eq_zero_iff [of p] bitlen_eq_zero_iff [of q] bitlen_nonneg [of p] bitlen_nonneg [of q]
    by linarith+
  have p1: "pow2 (bitlen p - 1) \<le> of_int p" and p2: "of_int p < pow2 (bitlen p)"
    using bitlen_bounds [OF assms(1)] bp
    by (simp_all add: pow2_def)
  have q1: "pow2 (bitlen q - 1) \<le> of_int q" and q2: "of_int q < pow2 (bitlen q)"
    using bitlen_bounds [OF assms(2)] bq
    by (simp_all add: pow2_def)
  have qpos: "(0 :: rat) < of_int q" using assms by simp
  have up: "?x < pow2 (?k + 1)"
  proof -
    have "of_int p < pow2 (?k + 1) * pow2 (bitlen q - 1)"
      using p2 by (simp add: pow2_add [symmetric])
    also have "\<dots> \<le> pow2 (?k + 1) * of_int q"
      using q1 pow2_pos [of "?k + 1"] by simp
    finally show ?thesis using qpos by (simp add: pos_divide_less_eq)
  qed
  have lo: "pow2 (?k - 1) < ?x"
  proof -
    have "pow2 (?k - 1) * of_int q < pow2 (?k - 1) * pow2 (bitlen q)"
      using q2 pow2_pos [of "?k - 1"] by simp
    also have "\<dots> = pow2 (bitlen p - 1)"
      by (simp add: pow2_add [symmetric])
    also have "\<dots> \<le> of_int p" by (rule p1)
    finally show ?thesis using qpos by (simp add: pos_less_divide_eq)
  qed
  show "pow2 (ilog2 p q) \<le> ?x"
    using lo le_frac_iff [OF assms(2), of ?k p]
    by (auto simp: ilog2_def ilog2_adj_def intro: less_imp_le)
  show "?x < pow2 (ilog2 p q + 1)"
    using up le_frac_iff [OF assms(2), of ?k p]
    by (auto simp: ilog2_def ilog2_adj_def)
qed

lemma rhe_div_ge:
  assumes "0 < d" "k * d \<le> n"
  shows "k \<le> rhe_div n d"
proof -
  have "k * d div d \<le> n div d"
    using assms by (intro zdiv_mono1)
  then have "k \<le> n div d"
    using assms by simp
  then show ?thesis
    by (auto simp: rhe_div_def rhe_rem_def)
qed

lemma rhe_div_le:
  assumes "0 < d" "n \<le> k * d"
  shows "rhe_div n d \<le> k"
proof -
  have "n div d \<le> k * d div d"
    using assms by (intro zdiv_mono1)
  then have fk: "n div d \<le> k"
    using assms by simp
  show ?thesis
  proof (cases "n div d = k")
    case True
    have "n = d * (n div d) + n mod d" by simp
    with True assms have "n mod d \<le> 0" by (metis add_le_same_cancel1 mult.commute)
    moreover have "0 \<le> n mod d" using assms by simp
    ultimately have "n mod d = 0" by simp
    with True assms show ?thesis by (simp add: rhe_div_def rhe_rem_def)
  next
    case False
    with fk have "n div d + 1 \<le> k" by simp
    then show ?thesis by (auto simp: rhe_div_def rhe_rem_def)
  qed
qed

lemma rhe_div_nonneg: "0 < d \<Longrightarrow> 0 \<le> n \<Longrightarrow> 0 \<le> rhe_div n d"
  using rhe_div_ge [of d 0 n] by simp

text \<open>Integer forms of the bounds on the scaled fraction.\<close>

lemma scaled_ge:
  assumes "0 < q" "of_int k * pow2 e \<le> of_int p / (of_int q :: rat)"
  shows "k * (q * pw e) \<le> p * pw (- e)"
proof -
  have qe: "(0 :: rat) < of_int (q * pw e)" using assms(1) pw_pos [of e] by simp
  have qpos: "(0 :: rat) < of_int q" using assms(1) by simp
  have "of_int k \<le> of_int p / (of_int q :: rat) / pow2 e"
    using assms(2) pow2_pos [of e] qpos by (simp add: field_simps)
  then have "of_int k \<le> of_int (p * pw (- e)) / (of_int (q * pw e) :: rat)"
    by (simp only: scaled_frac [OF assms(1)])
  then have "of_int k * of_int (q * pw e) \<le> (of_int (p * pw (- e)) :: rat)"
    using qe by (simp add: pos_le_divide_eq del: of_int_mult)
  then show ?thesis
    by (metis of_int_le_iff of_int_mult)
qed

lemma scaled_le:
  assumes "0 < q" "of_int p / (of_int q :: rat) \<le> of_int k * pow2 e"
  shows "p * pw (- e) \<le> k * (q * pw e)"
proof -
  have qe: "(0 :: rat) < of_int (q * pw e)" using assms(1) pw_pos [of e] by simp
  have qpos: "(0 :: rat) < of_int q" using assms(1) by simp
  have "of_int p / (of_int q :: rat) / pow2 e \<le> of_int k"
    using assms(2) pow2_pos [of e] qpos by (simp add: field_simps)
  then have "of_int (p * pw (- e)) / (of_int (q * pw e) :: rat) \<le> of_int k"
    by (simp only: scaled_frac [OF assms(1)])
  then have "(of_int (p * pw (- e)) :: rat) \<le> of_int k * of_int (q * pw e)"
    using qe by (simp add: pos_divide_le_eq del: of_int_mult)
  then show ?thesis
    by (metis of_int_le_iff of_int_mult)
qed

lemma b64_mant_ge:
  assumes "0 < q" "of_int k * pow2 e \<le> of_int p / (of_int q :: rat)"
  shows "k \<le> b64_mant p q e"
  unfolding b64_mant_def
  using assms pw_pos [of e] by (intro rhe_div_ge scaled_ge) simp_all

lemma b64_mant_le:
  assumes "0 < q" "of_int p / (of_int q :: rat) \<le> of_int k * pow2 e"
  shows "b64_mant p q e \<le> k"
  unfolding b64_mant_def
  using assms pw_pos [of e] by (intro rhe_div_le scaled_le) simp_all

lemma pw_pow2: "of_int (pw 52) = pow2 52" "of_int (pw 53) = pow2 53"
  by (simp_all add: pow2_of_pw)

text \<open>The significand of a rounded positive value.\<close>

lemma b64_mant_upper:
  assumes "0 < p" "0 < q"
  shows "b64_mant p q (b64_exp p q) \<le> pw 53"
proof -
  let ?e = "b64_exp p q"
  have "of_int p / (of_int q :: rat) < pow2 (ilog2 p q + 1)"
    by (rule ilog2_bounds [OF assms])
  also have "\<dots> \<le> pow2 (53 + ?e)"
    by (rule pow2_mono) (simp add: b64_exp_def)
  also have "\<dots> = of_int (pw 53) * pow2 ?e"
    by (simp add: pow2_add pw_pow2)
  finally show ?thesis
    by (intro b64_mant_le assms) simp
qed

lemma b64_mant_normal:
  assumes "0 < p" "0 < q" "- 1074 \<le> ilog2 p q - 52"
  shows "pw 52 \<le> b64_mant p q (b64_exp p q)"
proof -
  have e: "b64_exp p q = ilog2 p q - 52" using assms(3) by (simp add: b64_exp_def)
  have "of_int (pw 52) * pow2 (b64_exp p q) = pow2 (ilog2 p q)"
    by (simp add: e pw_pow2 pow2_add [symmetric])
  also have "\<dots> \<le> of_int p / (of_int q :: rat)"
    by (rule ilog2_bounds [OF assms(1,2)])
  finally show ?thesis
    by (intro b64_mant_ge assms) simp
qed

lemma b64_mant_subnormal:
  assumes "0 < p" "0 < q" "ilog2 p q - 52 < - 1074"
  shows "b64_mant p q (b64_exp p q) \<le> pw 52"
proof -
  have e: "b64_exp p q = - 1074" using assms(3) by (simp add: b64_exp_def)
  have "of_int p / (of_int q :: rat) < pow2 (ilog2 p q + 1)"
    by (rule ilog2_bounds [OF assms(1,2)])
  also have "\<dots> \<le> pow2 (52 + (- 1074))"
    by (rule pow2_mono) (use assms(3) in simp)
  also have "\<dots> = of_int (pw 52) * pow2 (b64_exp p q)"
    by (simp only: pow2_add pw_pow2 e)
  finally show ?thesis
    by (intro b64_mant_le assms) simp
qed

lemma b64_mant_nonneg: "0 \<le> p \<Longrightarrow> 0 < q \<Longrightarrow> 0 \<le> b64_mant p q e"
  unfolding b64_mant_def using pw_pos [of e] pw_pos [of "- e"]
  by (intro rhe_div_nonneg) simp_all

lemma pw_52_53: "pw 52 < pw 53" "0 < pw 52" "pw 53 = 2 * pw 52"
  by (simp_all add: pw_def)

lemma b64_exp_ge: "- 1074 \<le> b64_exp p q"
  by (simp add: b64_exp_def)

text \<open>A rounded positive value is an infinity or a float in the IEEE form.\<close>

lemma b64_norm_form:
  assumes "0 < p" "0 < q"
  shows "b64_norm s p q (b64_exp p q) = Infty s \<or>
         (\<exists>m e. b64_norm s p q (b64_exp p q) = Fin s m e \<and> valid_mant m e \<and>
            (m = b64_mant p q (b64_exp p q) \<and> e = b64_exp p q \<or>
             b64_mant p q (b64_exp p q) = pw 53 \<and> m = pw 52 \<and> e = b64_exp p q + 1))"
proof -
  let ?e = "b64_exp p q" and ?m = "b64_mant p q (b64_exp p q)"
  have up: "?m \<le> pw 53" by (rule b64_mant_upper [OF assms])
  have nn: "0 \<le> ?m" using assms by (intro b64_mant_nonneg) simp_all
  have ege: "- 1074 \<le> ?e" by (rule b64_exp_ge)
  have lo: "?e = - 1074 \<or> pw 52 \<le> ?m"
  proof (cases "- 1074 \<le> ilog2 p q - 52")
    case True
    then show ?thesis using b64_mant_normal [OF assms] by simp
  next
    case False
    then show ?thesis by (simp add: b64_exp_def)
  qed
  show ?thesis
  proof (cases "?m = pw 53")
    case True
    then show ?thesis using ege pw_52_53
      by (auto simp: b64_norm_def b64_pack_def b64_range_def valid_mant_def)
  next
    case False
    with up have lt: "?m < pw 53" by simp
    show ?thesis
    proof (cases "971 < ?e")
      case True
      then show ?thesis using False by (simp add: b64_norm_def b64_pack_def b64_range_def)
    next
      case False
      then show ?thesis using \<open>?m \<noteq> pw 53\<close> lt nn ege lo
        by (auto simp: b64_norm_def b64_pack_def b64_range_def valid_mant_def)
    qed
  qed
qed

lemma b64_of_frac_form:
  assumes "0 \<le> p" "0 < q"
  shows "b64_of_frac s p q = Infty s \<or>
         (\<exists>m e. b64_of_frac s p q = Fin s m e \<and> valid_mant m e)"
proof (cases "p = 0")
  case True
  then show ?thesis using pw_52_53 by (simp add: b64_of_frac_def valid_mant_def)
next
  case False
  with assms have "0 < p" by simp
  from b64_norm_form [OF this assms(2), of s] False show ?thesis
    by (auto simp: b64_of_frac_def)
qed

text \<open>Below \<open>2 ^ 1023\<close> the rounding never overflows.\<close>

lemma b64_of_frac_finite:
  assumes "0 \<le> p" "0 < q" "p < 2 ^ 1023 * q"
  shows "\<exists>m e. b64_of_frac s p q = Fin s m e \<and> valid_mant m e"
proof (cases "p = 0")
  case True
  then show ?thesis using pw_52_53 by (simp add: b64_of_frac_def valid_mant_def)
next
  case False
  with assms have pos: "0 < p" by simp
  have "pow2 (ilog2 p q) \<le> of_int p / (of_int q :: rat)"
    by (rule ilog2_bounds [OF pos assms(2)])
  also have "of_int p / (of_int q :: rat) < pow2 1023"
  proof -
    have "(of_int p :: rat) < of_int (2 ^ 1023 * q)"
      using assms(3) by (simp only: of_int_less_iff)
    then show ?thesis using assms(2)
      by (simp add: pos_divide_less_eq pow2_def)
  qed
  finally have "ilog2 p q < 1023"
    using pow2_mono [of 1023 "ilog2 p q"] by (cases "ilog2 p q < 1023") auto
  then have e: "b64_exp p q \<le> 970" by (simp add: b64_exp_def)
  from b64_norm_form [OF pos assms(2), of s] show ?thesis
  proof
    assume "b64_norm s p q (b64_exp p q) = Infty s"
    with e b64_mant_upper [OF pos assms(2)] show ?thesis
      by (auto simp: b64_norm_def b64_pack_def b64_range_def split: if_splits)
  next
    assume "\<exists>m e. b64_norm s p q (b64_exp p q) = Fin s m e \<and> valid_mant m e \<and>
            (m = b64_mant p q (b64_exp p q) \<and> e = b64_exp p q \<or>
             b64_mant p q (b64_exp p q) = pw 53 \<and> m = pw 52 \<and> e = b64_exp p q + 1)"
    with False show ?thesis by (auto simp: b64_of_frac_def)
  qed
qed











text \<open>Comparison and addition in terms of the exact values.\<close>

lemma pw_min_scale: "(of_int (pw (a - b)) :: rat) * pow2 (min a b) = pow2 a"
proof (cases "b \<le> a")
  case True
  then have "(of_int (pw (a - b)) :: rat) = pow2 (a - b)" by (simp add: pow2_of_pw)
  with True show ?thesis by (simp add: pow2_add [symmetric] min_def)
next
  case False
  then show ?thesis by (simp add: pw_nonpos min_def)
qed

lemma scaled_value:
  "(of_int (n * pw (a - b)) :: rat) * pow2 (min a b) = of_int n * pow2 a"
  using pw_min_scale [of a b] by (simp add: mult.assoc)

lemma fle_valof:
  "fle (Fin s1 m1 e1) (Fin s2 m2 e2) \<longleftrightarrow> valof (Fin s1 m1 e1) \<le> valof (Fin s2 m2 e2)"
proof -
  let ?k = "pow2 (min e1 e2)"
  have k: "0 < ?k" by (rule pow2_pos)
  have "smant s1 m1 * pw (e1 - e2) \<le> smant s2 m2 * pw (e2 - e1) \<longleftrightarrow>
      (of_int (smant s1 m1 * pw (e1 - e2)) :: rat) \<le> of_int (smant s2 m2 * pw (e2 - e1))"
    by (simp only: of_int_le_iff)
  also have "\<dots> \<longleftrightarrow> (of_int (smant s1 m1 * pw (e1 - e2)) :: rat) * ?k \<le>
      of_int (smant s2 m2 * pw (e2 - e1)) * ?k"
    using k by (simp only: mult_le_cancel_right_pos)
  also have "\<dots> \<longleftrightarrow> of_int (smant s1 m1) * pow2 e1 \<le> (of_int (smant s2 m2) * pow2 e2 :: rat)"
    using scaled_value [of "smant s1 m1" e1 e2] scaled_value [of "smant s2 m2" e2 e1]
    by (simp only: min.commute)
  finally show ?thesis by simp
qed

lemma pw_ratio: "(of_int (pw k) :: rat) / of_int (pw (- k)) = pow2 k"
proof (cases "0 \<le> k")
  case True
  then show ?thesis by (simp add: pw_nonpos pow2_of_pw)
next
  case False
  then have "(of_int (pw (- k)) :: rat) = pow2 (- k)" by (simp add: pow2_of_pw)
  moreover have "pow2 (- k) = 1 / pow2 k"
    by (simp add: pow2_powi power_int_minus inverse_eq_divide)
  ultimately show ?thesis using False by (simp add: pw_nonpos)
qed

text \<open>The exact sum that \<open>fadd\<close> rounds.\<close>

lemma fadd_exact:
  "(of_int ((n1 * pw (e1 - e2) + n2 * pw (e2 - e1)) * pw (min e1 e2)) :: rat) /
     of_int (pw (- min e1 e2)) = of_int n1 * pow2 e1 + of_int n2 * pow2 e2"
proof -
  let ?k = "min e1 e2"
  have "(of_int ((n1 * pw (e1 - e2) + n2 * pw (e2 - e1)) * pw ?k) :: rat) / of_int (pw (- ?k)) =
      of_int (n1 * pw (e1 - e2) + n2 * pw (e2 - e1)) * (of_int (pw ?k) / of_int (pw (- ?k)))"
    by simp
  also have "\<dots> = of_int (n1 * pw (e1 - e2) + n2 * pw (e2 - e1)) * pow2 ?k"
    by (simp only: pw_ratio)
  also have "\<dots> = of_int (n1 * pw (e1 - e2)) * pow2 ?k + of_int (n2 * pw (e2 - e1)) * pow2 ?k"
    by (simp add: distrib_right)
  also have "\<dots> = of_int n1 * pow2 e1 + of_int n2 * pow2 e2"
    using scaled_value [of n1 e1 e2] scaled_value [of n2 e2 e1]
    by (simp only: min.commute)
  finally show ?thesis .
qed

text \<open>Rounding never crosses a float: a value at or above a float rounds at or above it.\<close>

lemma b64_of_frac_value:
  assumes "0 < p" "0 < q" "b64_of_frac s p q = Fin s' m e"
  shows "(of_int m * pow2 e :: rat) = of_int (b64_mant p q (b64_exp p q)) * pow2 (b64_exp p q)"
proof -
  let ?E = "b64_exp p q" and ?M = "b64_mant p q (b64_exp p q)"
  from b64_norm_form [OF assms(1,2), of s] assms(1,3)
  consider "m = ?M" "e = ?E" | "?M = pw 53" "m = pw 52" "e = ?E + 1"
    by (auto simp: b64_of_frac_def)
  then show ?thesis
  proof cases
    case 1
    then show ?thesis by simp
  next
    case 2
    have "pow2 1 = 2" by (simp add: pow2_def)
    then have "pow2 (?E + 1) = 2 * pow2 ?E" by (simp add: pow2_add)
    with 2 show ?thesis by (simp add: pw_52_53)
  qed
qed

lemma no_cross:
  assumes v: "valid_mant m e" and p: "0 \<le> p" and q: "0 < q"
    and le: "of_int m * pow2 e \<le> of_int p / (of_int q :: rat)"
    and r: "b64_of_frac s p q = Fin s' M E"
  shows "of_int m * pow2 e \<le> (of_int M * pow2 E :: rat)"
proof (cases "p = 0")
  case True
  with le have "of_int m * pow2 e \<le> (0 :: rat)" by simp
  moreover from True r have "M = 0" by (simp add: b64_of_frac_def)
  ultimately show ?thesis by simp
next
  case False
  with p have pos: "0 < p" by simp
  let ?x = "of_int p / (of_int q :: rat)"
  let ?E = "b64_exp p q" and ?M = "b64_mant p q (b64_exp p q)"
  have val: "(of_int M * pow2 E :: rat) = of_int ?M * pow2 ?E"
    by (rule b64_of_frac_value [OF pos q r])
  from v have m0: "0 \<le> m" and m53: "m < pw 53" and e0: "- 1074 \<le> e"
    using pw_52_53 by (auto simp: valid_mant_def)
  have eE: "e \<le> ?E"
  proof (cases "pw 52 \<le> m")
    case True
    have "pow2 (52 + e) = of_int (pw 52) * pow2 e" by (simp add: pow2_add pw_pow2)
    also have "\<dots> \<le> of_int m * pow2 e"
      using True pow2_pos [of e] by (simp add: mult_right_mono)
    also have "\<dots> \<le> ?x" by (rule le)
    also have "?x < pow2 (ilog2 p q + 1)" by (rule ilog2_bounds [OF pos q])
    finally have "52 + e < ilog2 p q + 1"
      using pow2_mono [of "ilog2 p q + 1" "52 + e"] by (cases "52 + e < ilog2 p q + 1") auto
    then show ?thesis by (simp add: b64_exp_def)
  next
    case False
    with v have "e = - 1074" by (auto simp: valid_mant_def)
    then show ?thesis using b64_exp_ge [of p q] by simp
  qed
  show ?thesis
  proof (cases "e = ?E")
    case True
    with le have "m \<le> ?M" by (intro b64_mant_ge q) simp
    then have "(of_int m :: rat) * pow2 e \<le> of_int ?M * pow2 e"
      using pow2_pos [of e] by (simp add: mult_right_mono)
    with True val show ?thesis by simp
  next
    case False
    with eE have lt: "e + 1 \<le> ?E" by simp
    with e0 have "?E \<noteq> - 1074" by simp
    then have "- 1074 \<le> ilog2 p q - 52" by (simp add: b64_exp_def max_def split: if_splits)
    then have "pw 52 \<le> ?M" by (rule b64_mant_normal [OF pos q])
    have "(of_int m :: rat) * pow2 e \<le> of_int (pw 53) * pow2 e"
      using m53 pow2_pos [of e] by (simp add: mult_right_mono)
    also have "\<dots> = pow2 (53 + e)"
      by (simp only: pw_pow2 pow2_add)
    also have "\<dots> = pow2 (52 + (e + 1))"
      by (rule arg_cong [of _ _ pow2]) simp
    also have "\<dots> \<le> pow2 (52 + ?E)"
      using lt by (intro pow2_mono) simp
    also have "\<dots> = of_int (pw 52) * pow2 ?E"
      by (simp add: pow2_add pw_pow2)
    also have "\<dots> \<le> of_int ?M * pow2 ?E"
      using \<open>pw 52 \<le> ?M\<close> pow2_pos [of ?E] by (simp add: mult_right_mono)
    finally show ?thesis using val by simp
  qed
qed

text \<open>Adding a non-negative float to a non-negative float does not decrease it.\<close>

lemma fadd_nonneg_fin:
  assumes v: "valid_mant m e" and a: "float_ge_int a 0"
  shows "fle (Fin False m e) (fadd (Fin False m e) a) \<and>
         (fadd (Fin False m e) a = Infty False \<or>
          (\<exists>m' e'. fadd (Fin False m e) a = Fin False m' e' \<and> valid_mant m' e'))"
proof (cases a)
  case NaN
  with a show ?thesis by simp
next
  case (Infty s)
  with a show ?thesis by simp
next
  case (Fin s2 m2 e2)
  let ?n2 = "smant s2 m2"
  let ?N = "(m * pw (e - e2) + ?n2 * pw (e2 - e)) * pw (min e e2)"
  let ?D = "pw (- min e e2)"
  from a Fin have "0 \<le> ?n2 * pw e2" by simp
  then have n2: "0 \<le> ?n2" using pw_pos [of e2] by (simp add: zero_le_mult_iff)
  from v have m0: "0 \<le> m" using pw_52_53 by (auto simp: valid_mant_def)
  have N: "0 \<le> ?N" using m0 n2 pw_pos by (simp add: less_imp_le)
  have D: "0 < ?D" by (rule pw_pos)
  have sum: "fadd (Fin False m e) a = b64_of_frac False ?N ?D"
    using Fin N by (simp add: fadd_fin_def b64_round_def smant_def)
  have exact: "(of_int ?N :: rat) / of_int ?D = of_int m * pow2 e + of_int ?n2 * pow2 e2"
    by (rule fadd_exact)
  have ge: "of_int m * pow2 e \<le> (of_int ?N :: rat) / of_int ?D"
    using n2 pow2_pos [of e2] by (simp only: exact) simp
  from b64_of_frac_form [OF N D, of False]
  show ?thesis
  proof
    assume "b64_of_frac False ?N ?D = Infty False"
    with sum show ?thesis by simp
  next
    assume "\<exists>m' e'. b64_of_frac False ?N ?D = Fin False m' e' \<and> valid_mant m' e'"
    then obtain m' e' where r: "b64_of_frac False ?N ?D = Fin False m' e'"
      and v': "valid_mant m' e'" by blast
    have "of_int m * pow2 e \<le> (of_int m' * pow2 e' :: rat)"
      by (rule no_cross [OF v N D ge r])
    then have "fle (Fin False m e) (Fin False m' e')"
      by (simp only: fle_valof) (simp add: smant_def)
    with sum r v' show ?thesis by simp
  qed
qed

lemma fadd_nonneg_infty:
  assumes "float_ge_int a 0"
  shows "fadd (Infty False) a = Infty False"
  using assms by (cases a) simp_all

section \<open>Section 3: the total of the worked example\<close>

lemma discount_rate_script: "int_truediv 15 100 = Inr (float_lit 15 100)"
  by code_simp

lemma apply_discount_script: "apply_discount (float_lit 250 1) 15 = Inr (float_lit 2125 10)"
  by code_simp

lemma apply_tax_script: "apply_tax (float_lit 2125 10) (float_lit 9 100) = float_lit 231625 1000"
  by code_simp

lemma tie_is_exact: "valof (float_lit 231625 1000) = 231625 / 1000"
  by code_simp

text \<open>
  C1, as stated: \<open>calculate_total(250.00, discount_pct=15, tax_rate=0.09)\<close> yields 231.57.
  It does not: the result is another float.
\<close>

theorem calculate_total_231_57_counterexample:
  "calculate_total (float_lit 250 1) 15 (float_lit 9 100) \<noteq> Inr (float_lit 23157 100)"
  by code_simp

text \<open>
  C1, amended: the call yields 231.62. The discounted price is 212.5, the taxed price is
  the float of value exactly 231.625, and \<open>round(\<cdot>, 2)\<close> resolves that tie to the even
  digit: 231.62, neither 231.57 nor 231.63.
\<close>

theorem calculate_total_script:
  "calculate_total (float_lit 250 1) 15 (float_lit 9 100) = Inr (float_lit 23162 100) \<and>
   apply_discount (float_lit 250 1) 15 = Inr (float_lit 2125 10) \<and>
   apply_tax (float_lit 2125 10) (float_lit 9 100) = float_lit 231625 1000 \<and>
   valof (float_lit 231625 1000) = 231625 / 1000 \<and>
   py_round2 (float_lit 231625 1000) = Inr (float_lit 23162 100) \<and>
   float_lit 23162 100 \<noteq> float_lit 23157 100 \<and>
   float_lit 23162 100 \<noteq> float_lit 23163 100"
  by code_simp

section \<open>Section 7: the batches of \<open>process_batches\<close>\<close>

lemma process_batches_no_data:
  "batch_size \<noteq> 0 \<Longrightarrow> process_batches [] batch_size = Inl (UnboundLocalError ''batch_id'')"
  by (simp add: process_batches_def py_range_def range_up.simps range_down.simps)

lemma process_batches_one_item:
  "map_sum id (map_prod (map batch) id) (process_batches_default [7]) =
     Inr ([[7]], [''  Processed 1 items in 1 batches.''])"
  by code_simp

text \<open>
  C2: on the 15 integers 1..15 with \<open>batch_size=4\<close> the loop runs four times, on the batches
  1..4, 5..8, 9..12 and 13..15 (sizes 4, 4, 4, 3, numbered 1 to 4), and the summary line
  reports 15 items in 4 batches.
\<close>

theorem process_batches_sample:
  "sample_data = [1, 2, 3, 4, 5, 6, 7, 8, 9, 10, 11, 12, 13, 14, 15] \<and>
   map_sum id (map_prod (map batch) id) (process_batches sample_data 4) =
     Inr ([[1, 2, 3, 4], [5, 6, 7, 8], [9, 10, 11, 12], [13, 14, 15]],
          [''  Processed 15 items in 4 batches.'']) \<and>
   map_sum id (map (\<lambda>l. int (length (batch l))) \<circ> fst) (process_batches sample_data 4) =
     Inr [4, 4, 4, 3] \<and>
   map_sum id (map batch_id \<circ> fst) (process_batches sample_data 4) = Inr [1, 2, 3, 4]"
  by code_simp

text \<open>
  C8: on the empty list \<open>process_batches(data)\<close> fails: the loop body never runs, and the
  summary's read of \<open>batch_id\<close> raises \<open>UnboundLocalError\<close> (a \<open>NameError\<close>), with the default
  batch size and with every other non-zero one. So a call that returns had non-empty data.
\<close>

theorem process_batches_empty_fails:
  "process_batches_default [] = Inl (UnboundLocalError ''batch_id'') \<and>
   (\<forall>batch_size. batch_size \<noteq> 0 \<longrightarrow>
      process_batches [] batch_size = Inl (UnboundLocalError ''batch_id'')) \<and>
   (\<forall>data r. process_batches_default data = Inr r \<longrightarrow> data \<noteq> [])"
  by (auto simp: process_batches_default_def process_batches_no_data)

theorem process_batches_empty_fails_witness:
  "(4 :: int) \<noteq> 0 \<and> process_batches [] 4 = Inl (UnboundLocalError ''batch_id'') \<and>
   (\<exists>r. process_batches_default [7] = Inr r) \<and> [7 :: int] \<noteq> []"
proof -
  have ran: "\<exists>r. process_batches_default [7] = Inr r"
    using process_batches_one_item by (cases "process_batches_default [7]") auto
  have "process_batches [] 4 = Inl (UnboundLocalError ''batch_id'')"
    using process_batches_empty_fails by simp
  moreover have "[7 :: int] \<noteq> []"
    using process_batches_empty_fails ran by blast
  ultimately show ?thesis using ran by simp
qed

section \<open>Section 4: order and frame of the catalog loop\<close>

lemma catalog_body_frame:
  "catalog (catalog_body it g) = catalog g"
  "out4 (catalog_body it g) = out4 g @ [format_label it]"
  by (simp_all add: catalog_body_def)

lemma catalog_loop_frame:
  "catalog (catalog_loop i g) = catalog g \<and>
   out4 (catalog_loop i g) = out4 g @ map format_label (drop i (catalog g))"
proof (induction i g rule: catalog_loop.induct)
  case (1 i g)
  show ?case
  proof (cases "i < length (catalog g)")
    case True
    then have "drop i (catalog g) = catalog g ! i # drop (Suc i) (catalog g)"
      by (simp add: Cons_nth_drop_Suc)
    with True "1" show ?thesis
      by (simp add: catalog_loop.simps [of i g] catalog_body_frame)
  next
    case False
    then show ?thesis
      by (simp add: catalog_loop.simps [of i g])
  qed
qed

lemma catalog_labels_script:
  "map format_label catalog_literal =
     [''  [1] Widget Basic         $   25.00'',
      ''  [2] Widget Plus          $   49.99'',
      ''  [3] Widget Pro           $  149.99'',
      ''  [4] Gadget Lite          $   19.99'',
      ''  [5] Gadget Pro           $  199.99'',
      ''  [6] Gadget Ultra         $  349.99'',
      ''  [7] Accessory Pack       $    9.99'',
      ''  [8] Premium Bundle       $  499.99'']"
  by code_simp

text \<open>
  C3: the loop of Section 4 prints one label per entry of the catalog, in the order of the
  list, and leaves the catalog as it was: the list and every entry of it. This holds from
  any state of the globals and any index, hence for the script's catalog, whose eight labels
  are listed.
\<close>

theorem catalog_iteration:
  "catalog (section4_loop out) = catalog_literal \<and>
   out4 (section4_loop out) = out @ map format_label catalog_literal \<and>
   length (out4 (section4_loop [])) = length catalog_literal \<and>
   out4 (section4_loop []) =
     [''  [1] Widget Basic         $   25.00'',
      ''  [2] Widget Plus          $   49.99'',
      ''  [3] Widget Pro           $  149.99'',
      ''  [4] Gadget Lite          $   19.99'',
      ''  [5] Gadget Pro           $  199.99'',
      ''  [6] Gadget Ultra         $  349.99'',
      ''  [7] Accessory Pack       $    9.99'',
      ''  [8] Premium Bundle       $  499.99''] \<and>
   (\<forall>i g. catalog (catalog_loop i g) = catalog g \<and>
      out4 (catalog_loop i g) = out4 g @ map format_label (drop i (catalog g)))"
proof -
  have a: "out4 (section4_loop out) = out @ map format_label catalog_literal" for out
    using catalog_loop_frame [of 0 "section4_start out"]
    by (simp add: section4_loop_def section4_start_def)
  have "length (out4 (section4_loop [])) = length catalog_literal"
    by (simp only: a append_Nil length_map)
  moreover have "catalog (section4_loop out) = catalog_literal"
    using catalog_loop_frame [of 0 "section4_start out"]
    by (simp add: section4_loop_def section4_start_def)
  ultimately show ?thesis
    using a [of out] a [of "[]"] catalog_labels_script catalog_loop_frame by simp
qed

section \<open>Section 5: the exceptions are caught where they are raised\<close>

























lemma analyze_transactions_script:
  "analyze_transactions transactions_literal =
     Inr \<lparr>running_total = float_lit 404097 100,
          history =
            [Fin False 6333186975989760 (- 47), Fin False 5189694883102720 (- 44),
             Fin False 5409597208657920 (- 44), Fin False 5310597181692969 (- 42),
             Fin False 5464484829116498 (- 42), Fin False 6124191805782098 (- 42),
             Fin False 6421059945281618 (- 42), Fin False 8488185785965609 (- 41),
             Fin False 8501357935266365 (- 41), Fin False 8886187004987965 (- 41)],
          high_value_count = 5,
          out9 =
            [''  Txn  1: $   45.00 | Running total: $     45.00 | Avg: $   45.00'',
             ''  Txn  2: $  250.00 | Running total: $    295.00 | Avg: $  147.50'',
             ''  Txn  3: $   12.50 | Running total: $    307.50 | Avg: $  102.50'',
             ''  Txn  4: $  899.99 | Running total: $   1207.49 | Avg: $  301.87'',
             ''  Txn  5: $   34.99 | Running total: $   1242.48 | Avg: $  248.50'',
             ''  Txn  6: $  150.00 | Running total: $   1392.48 | Avg: $  232.08'',
             ''  Txn  7: $   67.50 | Running total: $   1459.98 | Avg: $  208.57'',
             ''  Txn  8: $ 2400.00 | Running total: $   3859.98 | Avg: $  482.50'',
             ''  Txn  9: $    5.99 | Running total: $   3865.97 | Avg: $  429.55'',
             ''  Txn 10: $  175.00 | Running total: $   4040.97 | Avg: $  404.10'',
             CHR 0x0A # ''  Summary: 10 transactions, 5 high-value'',
             ''  Final total: $4,040.97'']\<rparr>"
  by code_simp







section \<open>Section 6: the total and the breakpoint of \<open>process_order\<close>\<close>









section \<open>Section 9: the invariant of \<open>analyze_transactions\<close>\<close>

lemma txn_body_Inr:
  "txn_body i t st = Inr st' \<Longrightarrow>
     running_total st' = fadd (running_total st) (amount t) \<and>
     history st' = history st @ [fadd (running_total st) (amount t)] \<and>
     high_value_count st' =
       high_value_count st + (if float_gt_int (amount t) 100 then 1 else 0)"
  by (auto simp: txn_body_def txn_finish_def split: sum.splits)

lemma txn_loop_append:
  "txn_loop i (xs @ ys) st =
     (case txn_loop i xs st of
        Inl err \<Rightarrow> Inl err
      | Inr st' \<Rightarrow> txn_loop (i + int (length xs)) ys st')"
  by (induction xs arbitrary: i st) (auto split: sum.splits simp: algebra_simps)

lemma txn_loop_snoc:
  "txn_loop i (xs @ [x]) st =
     (case txn_loop i xs st of
        Inl err \<Rightarrow> Inl err
      | Inr st' \<Rightarrow> txn_body (i + int (length xs)) x st')"
  by (simp add: txn_loop_append split: sum.splits)

lemma txn_loop_invariant:
  "txn_loop 0 ts txn_start = Inr st \<Longrightarrow>
     running_total st = left_sum (map amount ts) \<and>
     length (history st) = length ts \<and>
     (\<forall>k<length ts. history st ! k = left_sum (map amount (take (Suc k) ts))) \<and>
     (ts \<noteq> [] \<longrightarrow> last (history st) = running_total st) \<and>
     high_value_count st = int (length (filter (\<lambda>t. float_gt_int (amount t) 100) ts))"
proof (induction ts arbitrary: st rule: rev_induct)
  case Nil
  then show ?case by (auto simp: txn_start_def left_sum_def)
next
  case (snoc x xs)
  from snoc.prems obtain st0 where st0: "txn_loop 0 xs txn_start = Inr st0"
    and body: "txn_body (int (length xs)) x st0 = Inr st"
    by (auto simp: txn_loop_snoc split: sum.splits)
  note ih = snoc.IH [OF st0]
  note b = txn_body_Inr [OF body]
  have rt: "running_total st = left_sum (map amount (xs @ [x]))"
    using ih b by (simp add: left_sum_def)
  have hist: "history st = history st0 @ [running_total st]"
    using b by simp
  have nth: "history st ! k = left_sum (map amount (take (Suc k) (xs @ [x])))"
    if "k < length (xs @ [x])" for k
  proof (cases "k < length xs")
    case True
    with ih hist show ?thesis by (simp add: nth_append)
  next
    case False
    with that have "k = length xs" by simp
    with ih hist rt show ?thesis by (simp add: nth_append)
  qed
  show ?case
    using rt hist nth ih b by simp
qed

lemma txn_loop_sorted:
  "txn_loop 0 ts txn_start = Inr st \<Longrightarrow> \<forall>t\<in>set ts. float_ge_int (amount t) 0 \<Longrightarrow>
     (running_total st = Infty False \<or>
      (\<exists>m e. running_total st = Fin False m e \<and> valid_mant m e)) \<and>
     (\<forall>k. Suc k < length (history st) \<longrightarrow> fle (history st ! k) (history st ! Suc k))"
proof (induction ts arbitrary: st rule: rev_induct)
  case Nil
  then show ?case using pw_52_53
    by (auto simp: txn_start_def float_zero_def valid_mant_def)
next
  case (snoc x xs)
  from snoc.prems(1) obtain st0 where st0: "txn_loop 0 xs txn_start = Inr st0"
    and body: "txn_body (int (length xs)) x st0 = Inr st"
    by (auto simp: txn_loop_snoc split: sum.splits)
  from snoc.prems(2) have nn: "\<forall>t\<in>set xs. float_ge_int (amount t) 0"
    and a: "float_ge_int (amount x) 0" by simp_all
  note ih = snoc.IH [OF st0 nn]
  note inv = txn_loop_invariant [OF st0]
  note b = txn_body_Inr [OF body]
  let ?old = "running_total st0" and ?new = "fadd (running_total st0) (amount x)"
  have step: "fle ?old ?new \<and>
      (?new = Infty False \<or> (\<exists>m e. ?new = Fin False m e \<and> valid_mant m e))"
  proof -
    from ih consider "?old = Infty False"
      | m e where "?old = Fin False m e" "valid_mant m e" by blast
    then show ?thesis
    proof cases
      case 1
      with fadd_nonneg_infty [OF a] show ?thesis by simp
    next
      case 2
      with fadd_nonneg_fin [OF 2(2) a] show ?thesis by simp
    qed
  qed
  have hist: "history st = history st0 @ [?new]" using b by simp
  have adj: "fle (history st ! k) (history st ! Suc k)" if "Suc k < length (history st)" for k
  proof (cases "Suc k < length (history st0)")
    case True
    with ih hist show ?thesis by (simp add: nth_append)
  next
    case False
    with that hist have k: "Suc k = length (history st0)" by simp
    then have ne: "xs \<noteq> []" using inv by auto
    from k have "history st0 ! k = last (history st0)"
      by (metis diff_Suc_1 last_conv_nth length_0_conv nat.simps(3))
    with ne inv have "history st0 ! k = ?old" by simp
    with k hist step show ?thesis by (simp add: nth_append)
  qed
  show ?case using step adj b by simp
qed

text \<open>The average cannot fail: the index is positive and far below the float range.\<close>

lemma ilog2_int_nonneg:
  assumes "1 \<le> n"
  shows "0 \<le> ilog2 n 1"
proof (rule ccontr)
  assume "\<not> 0 \<le> ilog2 n 1"
  then have "pow2 (ilog2 n 1 + 1) \<le> pow2 0" by (intro pow2_mono) simp
  moreover have "of_int n / (of_int 1 :: rat) < pow2 (ilog2 n 1 + 1)"
    using assms by (intro ilog2_bounds) simp_all
  ultimately have "(of_int n :: rat) < 1" by (simp add: pow2_0)
  with assms show False by simp
qed

lemma float_of_int_pos:
  assumes "1 \<le> n" "n < 2 ^ 1023"
  shows "\<exists>m e. float_of_int n = Inr (Fin False m e) \<and> m \<noteq> 0"
proof -
  have pos: "0 < n" using assms(1) by simp
  from b64_of_frac_finite [of n 1 False] assms obtain m e
    where r: "b64_of_frac False n 1 = Fin False m e" by auto
  have "pw 52 \<le> b64_mant n 1 (b64_exp n 1)"
    using ilog2_int_nonneg [OF assms(1)] pos by (intro b64_mant_normal) simp_all
  then have "(0 :: rat) < of_int (b64_mant n 1 (b64_exp n 1)) * pow2 (b64_exp n 1)"
    using pw_52_53 pow2_pos [of "b64_exp n 1"] by (intro mult_pos_pos) simp_all
  with b64_of_frac_value [OF pos _ r] have "m \<noteq> 0" by auto
  moreover have "float_of_int n = Inr (Fin False m e)"
    using pos r by (simp add: float_of_int_def b64_round_def finite_or_overflow_def)
  ultimately show ?thesis by blast
qed

lemma fdiv_int_returns:
  assumes "1 \<le> n" "n < 2 ^ 1023"
  shows "\<exists>y. fdiv_int x n = Inr y"
proof -
  from float_of_int_pos [OF assms] obtain m e
    where "float_of_int n = Inr (Fin False m e)" "m \<noteq> 0" by blast
  then show ?thesis by (cases x) (simp_all add: fdiv_int_def)
qed

lemma txn_body_returns:
  assumes "0 \<le> i" "i + 1 < 2 ^ 1023"
  shows "\<exists>st'. txn_body i t st = Inr st'"
proof -
  from assms have "1 \<le> i + 1" by simp
  from fdiv_int_returns [OF this assms(2)]
  obtain y where "fdiv_int (fadd (running_total st) (amount t)) (i + 1) = Inr y" by blast
  then show ?thesis by (simp add: txn_body_def txn_finish_def)
qed

lemma txn_loop_returns:
  "0 \<le> i \<Longrightarrow> i + int (length ts) < 2 ^ 1023 \<Longrightarrow> \<exists>st'. txn_loop i ts st = Inr st'"
proof (induction ts arbitrary: i st)
  case Nil
  then show ?case by simp
next
  case (Cons t ts)
  then have "i + 1 < 2 ^ 1023" by simp
  from txn_body_returns [OF Cons.prems(1) this] obtain st1
    where b: "txn_body i t st = Inr st1" by blast
  from Cons.prems have "0 \<le> i + 1" "i + 1 + int (length ts) < 2 ^ 1023" by simp_all
  from Cons.IH [OF this] b show ?case by simp
qed

lemma two_transactions:
  "txn_loop 0 (take 2 transactions_literal) txn_start =
     Inr \<lparr>running_total = float_lit 29500 100,
          history = [float_lit 4500 100, float_lit 29500 100],
          high_value_count = 1,
          out9 =
            [''  Txn  1: $   45.00 | Running total: $     45.00 | Avg: $   45.00'',
             ''  Txn  2: $  250.00 | Running total: $    295.00 | Avg: $  147.50'']\<rparr>"
  by code_simp

lemma transactions_nonneg: "\<forall>t\<in>set (take 2 transactions_literal). float_ge_int (amount t) 0"
  by code_simp

lemma transactions_length: "length transactions_literal = 10"
  by (simp add: transactions_literal_def)

text \<open>
  C10, as stated: after the first \<open>i\<close> transactions \<open>running_total\<close> equals the sum of their
  amounts. On the amounts 0.1, 0.2 and 0.3 it does not: the loop's total is the float
  0.6000000000000001, which is neither the sum of the three amounts, nor the float nearest
  to that sum (0.6), nor what the compensated \<open>sum\<close> of the three gives (0.6).
\<close>

theorem running_total_sum_counterexample:
  "map_sum id running_total
     (txn_loop 0
        [\<lparr>txn_id = 1, amount = float_lit 1 10, desc = ''a''\<rparr>,
         \<lparr>txn_id = 2, amount = float_lit 2 10, desc = ''b''\<rparr>,
         \<lparr>txn_id = 3, amount = float_lit 3 10, desc = ''c''\<rparr>] txn_start) =
     Inr (Fin False 5404319552844596 (- 53)) \<and>
   valof (Fin False 5404319552844596 (- 53)) \<noteq>
     valof (float_lit 1 10) + valof (float_lit 2 10) + valof (float_lit 3 10) \<and>
   Fin False 5404319552844596 (- 53) \<noteq> float_lit 6 10 \<and>
   py_sum True [float_lit 1 10, float_lit 2 10, float_lit 3 10] = float_lit 6 10"
  by code_simp

text \<open>
  C10, amended: in a state the loop reaches after the first \<open>i\<close> transactions,
  \<open>running_total\<close> is the left-to-right float sum of their amounts (each addition rounded to
  the nearest float), \<open>history\<close> is the list of the first \<open>i\<close> such prefix sums (of length \<open>i\<close>,
  its last element equal to \<open>running_total\<close>, and non-decreasing when all amounts are
  non-negative), and \<open>high_value_count\<close> is the number of those amounts greater than 100. The
  loop reaches that state for every list a Python process can hold (fewer than \<open>2 ** 1023\<close>
  elements). On the script's ten transactions the count is 5 and the total 4040.97.
\<close>

theorem analyze_transactions_invariant:
  "(\<forall>transactions i st.
      i \<le> length transactions \<and> txn_loop 0 (take i transactions) txn_start = Inr st \<longrightarrow>
      running_total st = left_sum (map amount (take i transactions)) \<and>
      length (history st) = i \<and>
      (\<forall>k<i. history st ! k = left_sum (map amount (take (Suc k) transactions))) \<and>
      (0 < i \<longrightarrow> last (history st) = running_total st) \<and>
      high_value_count st =
        int (length (filter (\<lambda>t. float_gt_int (amount t) 100) (take i transactions))) \<and>
      ((\<forall>t\<in>set (take i transactions). float_ge_int (amount t) 0) \<longrightarrow>
         (\<forall>k. Suc k < i \<longrightarrow> fle (history st ! k) (history st ! Suc k)))) \<and>
   (\<forall>transactions i.
      i \<le> length transactions \<and> int (length transactions) < 2 ^ 1023 \<longrightarrow>
      (\<exists>st. txn_loop 0 (take i transactions) txn_start = Inr st)) \<and>
   map_sum id (\<lambda>st. (running_total st, high_value_count st, length (history st)))
     (analyze_transactions transactions_literal) = Inr (float_lit 404097 100, 5, 10)"
proof (intro conjI allI impI)
  fix transactions :: "txn list" and i st
  assume h: "i \<le> length transactions \<and> txn_loop 0 (take i transactions) txn_start = Inr st"
  then have len: "length (take i transactions) = i" by simp
  note inv = txn_loop_invariant [of "take i transactions" st]
  from h inv show "running_total st = left_sum (map amount (take i transactions))" by simp
  from h inv len show "length (history st) = i" by simp
  from h inv len show "0 < i \<Longrightarrow> last (history st) = running_total st" by auto
  from h inv show "high_value_count st =
      int (length (filter (\<lambda>t. float_gt_int (amount t) 100) (take i transactions)))" by simp
  show "history st ! k = left_sum (map amount (take (Suc k) transactions))" if "k < i" for k
  proof -
    from that have "take (Suc k) (take i transactions) = take (Suc k) transactions"
      by (simp add: min_def)
    with h inv len that show ?thesis by simp
  qed
  show "fle (history st ! k) (history st ! Suc k)"
    if "\<forall>t\<in>set (take i transactions). float_ge_int (amount t) 0" "Suc k < i" for k
    using txn_loop_sorted [of "take i transactions" st] h that inv len by simp
next
  fix transactions :: "txn list" and i
  assume "i \<le> length transactions \<and> int (length transactions) < 2 ^ 1023"
  then have "(0 :: int) + int (length (take i transactions)) < 2 ^ 1023" by simp
  then show "\<exists>st. txn_loop 0 (take i transactions) txn_start = Inr st"
    by (intro txn_loop_returns) simp_all
next
  show "map_sum id (\<lambda>st. (running_total st, high_value_count st, length (history st)))
     (analyze_transactions transactions_literal) = Inr (float_lit 404097 100, 5, 10)"
    by (simp add: analyze_transactions_script)
qed

theorem analyze_transactions_invariant_witness:
  "2 \<le> length transactions_literal \<and> int (length transactions_literal) < 2 ^ 1023 \<and>
   list_all (\<lambda>t. float_ge_int (amount t) 0) (take 2 transactions_literal) \<and>
   (\<exists>st. txn_loop 0 (take 2 transactions_literal) txn_start = Inr st \<and>
      running_total st = left_sum (map amount (take 2 transactions_literal)) \<and>
      running_total st = float_lit 29500 100 \<and>
      length (history st) = 2 \<and>
      last (history st) = running_total st \<and>
      high_value_count st = 1 \<and>
      fle (history st ! 0) (history st ! Suc 0))"
proof -
  have l: "2 \<le> length transactions_literal" "int (length transactions_literal) < 2 ^ 1023"
    by (simp_all add: transactions_length)
  from analyze_transactions_invariant l
  obtain st where st: "txn_loop 0 (take 2 transactions_literal) txn_start = Inr st"
    by blast
  from analyze_transactions_invariant l(1) st
  have "running_total st = left_sum (map amount (take 2 transactions_literal)) \<and>
      length (history st) = 2 \<and>
      ((0 :: nat) < 2 \<longrightarrow> last (history st) = running_total st) \<and>
      ((\<forall>t\<in>set (take 2 transactions_literal). float_ge_int (amount t) 0) \<longrightarrow>
         (\<forall>k. Suc k < 2 \<longrightarrow> fle (history st ! k) (history st ! Suc k)))"
    by blast
  with transactions_nonneg
  have inv: "running_total st = left_sum (map amount (take 2 transactions_literal))"
    "length (history st) = 2" "last (history st) = running_total st"
    "fle (history st ! 0) (history st ! Suc 0)"
    by simp_all
  from st two_transactions
  have "running_total st = float_lit 29500 100" "high_value_count st = 1"
    by auto
  then have v: "running_total st = float_lit 29500 100" "high_value_count st = 1" .
  have q: "list_all (\<lambda>t. float_ge_int (amount t) 0) (take 2 transactions_literal)"
    using transactions_nonneg by (simp only: list_all_iff)
  from st inv v have "\<exists>st. txn_loop 0 (take 2 transactions_literal) txn_start = Inr st \<and>
      running_total st = left_sum (map amount (take 2 transactions_literal)) \<and>
      running_total st = float_lit 29500 100 \<and>
      length (history st) = 2 \<and>
      last (history st) = running_total st \<and>
      high_value_count st = 1 \<and>
      fle (history st ! 0) (history st ! Suc 0)"
    by (intro exI [of _ st]) simp
  with l q show ?thesis by (intro conjI)
qed

end
